theory Spec2Isabelle
  imports Complex_Main "HOL-Library.Multiset"
begin

section \<open>Numbers and arrays\<close>

text \<open>
  The notebook computes with NumPy arrays of double-precision floats. The embedding
  idealises a float as a real number, with one exception that the code can observe:
  \<open>np.mean\<close> of an empty array is \<open>nan\<close>, and every comparison with \<open>nan\<close> is false.
  A scalar result is therefore a \<open>real option\<close>, where \<open>None\<close> stands for \<open>nan\<close>.
  A one-dimensional array is a list, a boolean mask is a list of booleans. The rounding
  of the doubles is made explicit in the section on double precision, for the one
  question that it decides: when a computed cost is exactly 0.
\<close>

type_synonym npfloat = "real option"

definition np_minimum :: "real list \<Rightarrow> real list \<Rightarrow> real list" where
  "np_minimum xs ys = map2 min xs ys"

definition np_maximum :: "real list \<Rightarrow> real list \<Rightarrow> real list" where
  "np_maximum xs ys = map2 max xs ys"

text \<open>\<open>xs[m]\<close> for a boolean mask \<open>m\<close>: a new array of the entries selected by the mask.\<close>

definition np_mask :: "'a list \<Rightarrow> bool list \<Rightarrow> 'a list" where
  "np_mask xs m = map fst (filter snd (zip xs m))"

text \<open>\<open>m1 & m2\<close> on two masks.\<close>

definition np_and :: "bool list \<Rightarrow> bool list \<Rightarrow> bool list" where
  "np_and m1 m2 = map2 (\<and>) m1 m2"

text \<open>\<open>np.sum\<close> of a mask counts its true entries.\<close>

definition np_sum :: "bool list \<Rightarrow> nat" where
  "np_sum m = length (filter (\<lambda>b. b) m)"

definition np_zeros :: "nat \<Rightarrow> real list" where
  "np_zeros n = replicate n 0"

definition np_mean :: "real list \<Rightarrow> npfloat" where
  "np_mean xs = (if xs = [] then None else Some (sum_list xs / real (length xs)))"

text \<open>\<open>x < y\<close> on scalars: false as soon as one side is \<open>nan\<close>.\<close>

definition np_less :: "npfloat \<Rightarrow> npfloat \<Rightarrow> bool" where
  "np_less x y = (case x of None \<Rightarrow> False
                  | Some p \<Rightarrow> (case y of None \<Rightarrow> False | Some q \<Rightarrow> p < q))"

section \<open>The sample\<close>

text \<open>
  The module-level arrays \<open>v1\<close>, \<open>v2\<close>, \<open>vmin\<close>, \<open>vmax\<close> are the global state that
  the two functions read.
\<close>

record sample =
  v1 :: "real list"
  v2 :: "real list"
  vmin :: "real list"
  vmax :: "real list"

text \<open>
  The statements that draw the sample. The two calls of \<open>np.random.uniform(0, 1, N)\<close>
  are modelled by their outcomes: \<open>u1 i\<close> and \<open>u2 i\<close> are the i-th values that the
  generator delivers to the first and to the second call.
\<close>

definition draw_sample :: "nat \<Rightarrow> (nat \<Rightarrow> real) \<Rightarrow> (nat \<Rightarrow> real) \<Rightarrow> sample" where
  "draw_sample N u1 u2 =
     (let a1 = map u1 [0..<N];
          a2 = map u2 [0..<N]
      in \<lparr>v1 = a1, v2 = a2, vmin = np_minimum a1 a2, vmax = np_maximum a1 a2\<rparr>)"

section \<open>The cost evaluator\<close>

text \<open>
  Each local variable of \<open>simulate_cost_vectorized\<close> is a function of the threshold
  and of the global state.
\<close>

definition case1 :: "real \<Rightarrow> sample \<Rightarrow> bool list" where
  "case1 a s = map (\<lambda>x. a > x) (vmax s)"

definition cost1 :: "real \<Rightarrow> sample \<Rightarrow> real list" where
  "cost1 a s = map (\<lambda>x. (x - a)\<^sup>2) (np_mask (vmin s) (case1 a s))"

definition case2 :: "real \<Rightarrow> sample \<Rightarrow> bool list" where
  "case2 a s = np_and (map (\<lambda>x. a \<ge> x) (vmin s)) (map (\<lambda>x. a \<le> x) (vmax s))"

definition cost2 :: "real \<Rightarrow> sample \<Rightarrow> real list" where
  "cost2 a s = np_zeros (np_sum (case2 a s))"

definition case3 :: "real \<Rightarrow> sample \<Rightarrow> bool list" where
  "case3 a s = map (\<lambda>x. a < x) (vmin s)"

definition cost3 :: "real \<Rightarrow> sample \<Rightarrow> real list" where
  "cost3 a s = map (\<lambda>x. (x + 1)\<^sup>2) (np_mask (vmin s) (case3 a s))"

definition all_costs :: "real \<Rightarrow> sample \<Rightarrow> real list" where
  "all_costs a s = cost1 a s @ cost2 a s @ cost3 a s"

text \<open>
  The function returns the mean; the global state is passed through, since the body
  assigns to no global and every NumPy operation in it builds a new array.
\<close>

definition simulate_cost_vectorized :: "real \<Rightarrow> sample \<Rightarrow> npfloat \<times> sample" where
  "simulate_cost_vectorized a s = (np_mean (all_costs a s), s)"

section \<open>The search\<close>

definition epsilon :: real where
  "epsilon = 1 / 1000"

text \<open>
  One record for each executed iteration of the loop of \<open>optimize\<close>: the values of
  \<open>low\<close> and \<open>high\<close> with which the loop test was passed, and the values of the five
  variables that the \<open>print\<close> at the end of the body shows.
\<close>

record iteration =
  it_low0 :: real
  it_high0 :: real
  it_low :: real
  it_high :: real
  it_mid :: real
  it_cost_mid :: npfloat
  it_cost_low :: npfloat

text \<open>The body of the loop, entered with \<open>low\<close> and \<open>high\<close>.\<close>

definition loop_body :: "sample \<Rightarrow> real \<Rightarrow> real \<Rightarrow> iteration \<times> sample" where
  "loop_body s low high =
     (let mid = (low + high) / 2;
          (cost_mid, s1) = simulate_cost_vectorized mid s;
          (cost_low, s2) = simulate_cost_vectorized low s1;
          (low', high') = (if np_less cost_mid cost_low then (mid, high) else (low, mid))
      in (\<lparr>it_low0 = low, it_high0 = high, it_low = low', it_high = high',
           it_mid = mid, it_cost_mid = cost_mid, it_cost_low = cost_low\<rparr>, s2))"

text \<open>
  The loop \<open>while high - low > epsilon\<close>. It returns the iterations in the order in
  which they ran, and the global state.
\<close>

function optimize_loop :: "sample \<Rightarrow> real \<Rightarrow> real \<Rightarrow> iteration list \<times> sample" where
  "optimize_loop s low high =
     (if high - low > epsilon then
        (let (it, s1) = loop_body s low high;
             (rest, s2) = optimize_loop s1 (it_low it) (it_high it)
         in (it # rest, s2))
      else ([], s))"
  by pat_completeness auto
termination
proof (relation "measure (\<lambda>(s, low, high). nat \<lceil>(high - low) * 1000\<rceil>)")
  show "wf (measure (\<lambda>(s, low, high). nat \<lceil>(high - low) * 1000\<rceil>))"
    by simp
next
  fix s :: sample and low high :: real and x :: "iteration \<times> sample" and it s1
  assume guard: "epsilon < high - low"
    and body: "x = loop_body s low high" "(it, s1) = x"
  have width: "it_high it - it_low it = (high - low) / 2"
    using body
    by (auto simp: loop_body_def simulate_cost_vectorized_def Let_def field_simps
        split: if_splits)
  define x where "x = (high - low) * 1000"
  have big: "1 < x"
    using guard by (simp add: epsilon_def x_def)
  have two: "2 \<le> \<lceil>x\<rceil>"
    using big by linarith
  have "x / 2 \<le> of_int \<lceil>x\<rceil> / 2"
    by (simp add: divide_right_mono)
  also have "\<dots> \<le> of_int (\<lceil>x\<rceil> - 1)"
    using two by simp
  finally have "\<lceil>x / 2\<rceil> \<le> \<lceil>x\<rceil> - 1"
    by (rule ceiling_le)
  then have less: "nat \<lceil>x / 2\<rceil> < nat \<lceil>x\<rceil>"
    using two by simp
  have half: "(it_high it - it_low it) * 1000 = x / 2"
    using width by (simp add: x_def)
  have "nat \<lceil>(it_high it - it_low it) * 1000\<rceil> < nat \<lceil>(high - low) * 1000\<rceil>"
    unfolding half using less by (simp only: x_def)
  then show "((s1, it_low it, it_high it), (s, low, high))
      \<in> measure (\<lambda>(s, low, high). nat \<lceil>(high - low) * 1000\<rceil>)"
    by (simp only: in_measure prod.case)
qed

text \<open>
  \<open>optimize(a)\<close>: the search starts from \<open>low, high = 0, 1\<close>. The function has no
  \<open>return\<close>; what it produces is the printed lines, one for each iteration.
\<close>

definition optimize :: "real \<Rightarrow> sample \<Rightarrow> iteration list \<times> sample" where
  "optimize a s = optimize_loop s 0 1"

section \<open>Evaluation on a grid of thresholds\<close>

text \<open>
  The list comprehension \<open>[simulate_cost_vectorized(a) for a in a_values]\<close> of the
  last cell: the thresholds are evaluated from left to right on the same global state.
\<close>

fun costs :: "real list \<Rightarrow> sample \<Rightarrow> npfloat list \<times> sample" where
  "costs [] s = ([], s)"
| "costs (a # a_values) s =
     (let (c, s1) = simulate_cost_vectorized a s;
          (cs, s2) = costs a_values s1
      in (c # cs, s2))"

section \<open>Double precision\<close>

text \<open>
  Whether a computed cost is exactly 0 depends on the rounding of the doubles: the square of
  a small enough difference underflows to \<open>0.0\<close>. For this question the arithmetic of the
  cost arrays is modelled with its rounding, on the reals that are doubles.
\<close>

text \<open>Rounding to the nearest integer, a tie going to the even neighbour.\<close>

definition round_half_even :: "real \<Rightarrow> int" where
  "round_half_even x =
     (let f = \<lfloor>x\<rfloor>; d = x - of_int f
      in if d < 1/2 then f else if d > 1/2 then f + 1 else if even f then f else f + 1)"

text \<open>The smallest positive double, \<open>2^-1074\<close>; every finite double is a multiple of it.\<close>

definition f64_tiny :: real where
  "f64_tiny = 1 / 2 ^ 1074"

text \<open>
  The spacing of the doubles around \<open>x\<close> is \<open>2^k * f64_tiny\<close>, for the least \<open>k\<close> with
  \<open>\<bar>x\<bar> < 2^(k + 53) * f64_tiny\<close>; \<open>k\<close> is 0 throughout the subnormal range and the first
  binade, and 2045 in the last binade.
\<close>

function f64_exponent :: "nat \<Rightarrow> real \<Rightarrow> nat" where
  "f64_exponent k x =
     (if k < 2045 \<and> 2 ^ (k + 53) * f64_tiny \<le> \<bar>x\<bar> then f64_exponent (Suc k) x else k)"
  by pat_completeness auto
termination
  by (relation "measure (\<lambda>(k, x). 2045 - k)") auto

text \<open>
  The rounding of a real result to a double: the nearest multiple of the spacing, ties to
  even. Results of magnitude \<open>2^1024\<close> and beyond, which the source turns into infinities,
  are outside this model; the arithmetic below stays within \<open>[-1, 4]\<close> for inputs in
  \<open>[0, 1]\<close>.
\<close>

definition f64_round :: "real \<Rightarrow> real" where
  "f64_round x =
     (let q = 2 ^ f64_exponent 0 x * f64_tiny
      in q * of_int (round_half_even (x / q)))"

definition is_f64 :: "real \<Rightarrow> bool" where
  "is_f64 x = (f64_round x = x \<and> \<bar>x\<bar> < 2 ^ 1024)"

text \<open>
  The three operations of the cost arrays: \<open>x - a\<close>, \<open>x + 1\<close> and \<open>d ** 2\<close>, which NumPy
  computes as the product \<open>d * d\<close>; each rounds its exact result once.
\<close>

definition f64_sub :: "real \<Rightarrow> real \<Rightarrow> real" where
  "f64_sub x y = f64_round (x - y)"

definition f64_add :: "real \<Rightarrow> real \<Rightarrow> real" where
  "f64_add x y = f64_round (x + y)"

definition f64_square :: "real \<Rightarrow> real" where
  "f64_square x = f64_round (x * x)"

text \<open>
  The cost arrays with the rounding of every operation; the masks and \<open>cost2\<close> involve no
  rounding.
\<close>

definition cost1_f64 :: "real \<Rightarrow> sample \<Rightarrow> real list" where
  "cost1_f64 a s = map (\<lambda>x. f64_square (f64_sub x a)) (np_mask (vmin s) (case1 a s))"

definition cost3_f64 :: "real \<Rightarrow> sample \<Rightarrow> real list" where
  "cost3_f64 a s = map (\<lambda>x. f64_square (f64_add x 1)) (np_mask (vmin s) (case3 a s))"

definition all_costs_f64 :: "real \<Rightarrow> sample \<Rightarrow> real list" where
  "all_costs_f64 a s = cost1_f64 a s @ cost2 a s @ cost3_f64 a s"

section \<open>The cost function as the specification words it\<close>

text \<open>
  The cost of one pair \<open>(vmin, vmax)\<close> at the threshold \<open>a\<close>, in the order of the
  specification's three cases, and the expected cost as the mean over the pairs.
\<close>

definition spec_pair_cost :: "real \<Rightarrow> real \<times> real \<Rightarrow> real" where
  "spec_pair_cost a p =
     (if a > snd p then (fst p - a)\<^sup>2
      else if fst p \<le> a \<and> a \<le> snd p then 0
      else (fst p + 1)\<^sup>2)"

definition spec_expected_cost :: "real \<Rightarrow> (real \<times> real) list \<Rightarrow> real" where
  "spec_expected_cost a pairs = sum_list (map (spec_pair_cost a) pairs) / real (length pairs)"

section \<open>Facts about the arrays\<close>

declare optimize_loop.simps [simp del]

lemmas np_defs = np_minimum_def np_maximum_def np_mask_def np_and_def np_sum_def
  np_zeros_def np_mean_def

lemmas cost_defs = case1_def cost1_def case2_def cost2_def case3_def cost3_def
  all_costs_def simulate_cost_vectorized_def

text \<open>
  For arrays with \<open>xs \<le> ys\<close> entry by entry, the three masks select each position exactly
  once, so the three cost arrays together hold the piecewise cost of every pair.
\<close>

lemma costs_mset_lists:
  assumes "list_all2 (\<le>) xs ys"
  shows "mset (map (\<lambda>x. (x - a)\<^sup>2) (np_mask xs (map (\<lambda>y. a > y) ys)))
       + mset (np_zeros (np_sum (np_and (map (\<lambda>x. a \<ge> x) xs) (map (\<lambda>y. a \<le> y) ys))))
       + mset (map (\<lambda>x. (x + 1)\<^sup>2) (np_mask xs (map (\<lambda>x. a < x) xs)))
       = mset (map (spec_pair_cost a) (zip xs ys))"
  using assms
proof (induction xs ys rule: list_all2_induct)
  case Nil
  show ?case by (simp add: np_defs)
next
  case (Cons x xs y ys)
  then show ?case
    by (auto simp: np_defs spec_pair_cost_def)
qed

lemma all_costs_mset:
  assumes "list_all2 (\<le>) (vmin s) (vmax s)"
  shows "mset (all_costs a s) = mset (map (spec_pair_cost a) (zip (vmin s) (vmax s)))"
  using costs_mset_lists [OF assms, of a]
  by (simp add: all_costs_def cost1_def cost2_def cost3_def case1_def case2_def case3_def
      add.assoc)

lemma sum_list_all_costs:
  assumes "list_all2 (\<le>) (vmin s) (vmax s)"
  shows "sum_list (all_costs a s) = sum_list (map (spec_pair_cost a) (zip (vmin s) (vmax s)))"
proof -
  have "sum_mset (mset (all_costs a s))
      = sum_mset (mset (map (spec_pair_cost a) (zip (vmin s) (vmax s))))"
    by (simp only: all_costs_mset [OF assms])
  then show ?thesis by (simp only: sum_mset_sum_list)
qed

lemma length_all_costs:
  assumes "list_all2 (\<le>) (vmin s) (vmax s)"
  shows "length (all_costs a s) = length (vmin s)"
proof -
  have "size (mset (all_costs a s))
      = size (mset (map (spec_pair_cost a) (zip (vmin s) (vmax s))))"
    by (simp only: all_costs_mset [OF assms])
  then show ?thesis using assms by (simp add: list_all2_lengthD)
qed

lemma all_costs_nonneg: "c \<in> set (all_costs a s) \<Longrightarrow> 0 \<le> c"
  by (auto simp: all_costs_def cost1_def cost2_def cost3_def np_zeros_def)

text \<open>Every drawn sample has \<open>vmin \<le> vmax\<close> entry by entry, and arrays of one length.\<close>

lemma draw_sample_ordered:
  "list_all2 (\<le>) (vmin (draw_sample N u1 u2)) (vmax (draw_sample N u1 u2))"
  by (auto simp: draw_sample_def Let_def np_minimum_def np_maximum_def list_all2_conv_all_nth
      min_def max_def)

lemma fst_simulate: "fst (simulate_cost_vectorized a s) = np_mean (all_costs a s)"
  by (simp add: simulate_cost_vectorized_def)

lemma snd_simulate: "snd (simulate_cost_vectorized a s) = s"
  by (simp add: simulate_cost_vectorized_def)

lemma snd_costs: "snd (costs a_values s) = s"
  by (induction a_values) (auto simp: simulate_cost_vectorized_def split: prod.splits)

section \<open>Facts about the loop\<close>

text \<open>The body of the loop with its local variables written out.\<close>

lemma loop_body_eq:
  "loop_body s low high =
     (\<lparr>it_low0 = low, it_high0 = high,
       it_low = (if np_less (np_mean (all_costs ((low + high) / 2) s)) (np_mean (all_costs low s))
                 then (low + high) / 2 else low),
       it_high = (if np_less (np_mean (all_costs ((low + high) / 2) s)) (np_mean (all_costs low s))
                  then high else (low + high) / 2),
       it_mid = (low + high) / 2,
       it_cost_mid = np_mean (all_costs ((low + high) / 2) s),
       it_cost_low = np_mean (all_costs low s)\<rparr>, s)"
  by (simp add: loop_body_def simulate_cost_vectorized_def Let_def)

lemma snd_optimize_loop: "snd (optimize_loop s low high) = s"
proof (induction s low high rule: optimize_loop.induct)
  case (1 s low high)
  show ?case
  proof (cases "epsilon < high - low")
    case True
    obtain it s1 where b: "loop_body s low high = (it, s1)"
      by (cases "loop_body s low high")
    then have s1: "s1 = s" by (simp add: loop_body_eq)
    from "1" [OF True refl b [symmetric]] have "snd (optimize_loop s1 (it_low it) (it_high it)) = s1" .
    with True b s1 show ?thesis
      by (auto simp: optimize_loop.simps [of s low high] split: prod.splits)
  next
    case False
    then show ?thesis by (simp add: optimize_loop.simps [of s low high])
  qed
qed

lemma optimize_loop_unfold:
  "fst (optimize_loop s low high) =
     (if epsilon < high - low
      then fst (loop_body s low high)
           # fst (optimize_loop s (it_low (fst (loop_body s low high)))
                                  (it_high (fst (loop_body s low high))))
      else [])"
proof (cases "epsilon < high - low")
  case True
  obtain it s1 where b: "loop_body s low high = (it, s1)"
    by (cases "loop_body s low high")
  then have s1: "s1 = s" by (simp add: loop_body_eq)
  show ?thesis using True b s1
    by (simp add: optimize_loop.simps [of s low high] split: prod.splits)
next
  case False
  then show ?thesis by (simp add: optimize_loop.simps [of s low high])
qed

text \<open>
  Induction along the run of the loop on a fixed state: a property of \<open>low\<close> and \<open>high\<close>
  holds when it follows from its instance after one iteration.
\<close>

lemma optimize_loop_induct [case_names step]:
  assumes step: "\<And>low high. (epsilon < high - low \<Longrightarrow>
             P (it_low (fst (loop_body s low high))) (it_high (fst (loop_body s low high))))
           \<Longrightarrow> P low high"
  shows "P low high"
proof -
  have "s0 = s \<longrightarrow> P low high" for s0
  proof (induction s0 low high rule: optimize_loop.induct)
    case (1 s0 low high)
    show ?case
    proof
      assume e: "s0 = s"
      show "P low high"
      proof (rule step)
        assume g: "epsilon < high - low"
        obtain it s1 where b: "loop_body s0 low high = (it, s1)"
          by (cases "loop_body s0 low high")
        then have s1: "s1 = s" using e by (simp add: loop_body_eq)
        from "1" [OF g refl b [symmetric]] s1
        have "P (it_low it) (it_high it)" by simp
        then show "P (it_low (fst (loop_body s low high))) (it_high (fst (loop_body s low high)))"
          using b e by simp
      qed
    qed
  qed
  then show ?thesis by simp
qed

lemma optimize_loop_member:
  "it \<in> set (fst (optimize_loop s low high)) \<Longrightarrow>
     it = fst (loop_body s (it_low0 it) (it_high0 it)) \<and> epsilon < it_high0 it - it_low0 it"
proof (induction low high rule: optimize_loop_induct [where s = s])
  case (step low high)
  show ?case
  proof (cases "epsilon < high - low")
    case True
    from step.prems consider "it = fst (loop_body s low high)"
      | "it \<in> set (fst (optimize_loop s (it_low (fst (loop_body s low high)))
                                        (it_high (fst (loop_body s low high)))))"
      using True by (subst (asm) optimize_loop_unfold) auto
    then show ?thesis
    proof cases
      case 1
      then have "it_low0 it = low" "it_high0 it = high" by (simp_all add: loop_body_eq)
      with 1 True show ?thesis by simp
    next
      case 2
      with step.IH [OF True] show ?thesis by simp
    qed
  next
    case False
    with step.prems show ?thesis by (subst (asm) optimize_loop_unfold) simp
  qed
qed

lemma optimize_loop_invariant:
  "it \<in> set (fst (optimize_loop s low high)) \<Longrightarrow> 0 \<le> low \<Longrightarrow> low < high \<Longrightarrow> high \<le> 1 \<Longrightarrow>
     0 \<le> it_low0 it \<and> it_low0 it < it_high0 it \<and> it_high0 it \<le> 1
     \<and> 0 \<le> it_low it \<and> it_low it < it_high it \<and> it_high it \<le> 1"
proof (induction low high rule: optimize_loop_induct [where s = s])
  case (step low high)
  show ?case
  proof (cases "epsilon < high - low")
    case True
    let ?b = "fst (loop_body s low high)"
    have next_inv: "0 \<le> it_low ?b" "it_low ?b < it_high ?b" "it_high ?b \<le> 1"
      using step.prems(2-4) by (simp_all add: loop_body_eq)
    from step.prems(1) consider "it = ?b"
      | "it \<in> set (fst (optimize_loop s (it_low ?b) (it_high ?b)))"
      using True by (subst (asm) optimize_loop_unfold) auto
    then show ?thesis
    proof cases
      case 1
      then have "it_low0 it = low" "it_high0 it = high" by (simp_all add: loop_body_eq)
      with 1 next_inv step.prems(2-4) show ?thesis by simp
    next
      case 2
      from step.IH [OF True 2 next_inv] show ?thesis .
    qed
  next
    case False
    with step.prems(1) show ?thesis by (subst (asm) optimize_loop_unfold) simp
  qed
qed

lemma loop_body_width:
  "it_high (fst (loop_body s low high)) - it_low (fst (loop_body s low high)) = (high - low) / 2"
  by (simp add: loop_body_eq field_simps)

text \<open>
  The number of iterations depends on the width alone: a width in
  \<open>(epsilon * 2^(n-1), epsilon * 2^n]\<close> takes exactly \<open>n\<close> iterations.
\<close>

lemma optimize_loop_length:
  "high - low \<le> epsilon * 2 ^ n \<Longrightarrow> (0 < n \<longrightarrow> epsilon * 2 ^ (n - 1) < high - low) \<Longrightarrow>
     length (fst (optimize_loop s low high)) = n"
proof (induction n arbitrary: low high)
  case 0
  then have "\<not> epsilon < high - low" by simp
  then show ?case by (subst optimize_loop_unfold) simp
next
  case (Suc n)
  let ?b = "fst (loop_body s low high)"
  from Suc.prems(2) have big: "epsilon * 2 ^ n < high - low" by simp
  have "epsilon * 1 \<le> epsilon * 2 ^ n"
    by (rule mult_left_mono) (simp_all add: epsilon_def)
  with big have guard: "epsilon < high - low" by simp
  have w: "it_high ?b - it_low ?b = (high - low) / 2" by (rule loop_body_width)
  have a: "it_high ?b - it_low ?b \<le> epsilon * 2 ^ n"
    using Suc.prems(1) by (simp add: w)
  have b: "0 < n \<longrightarrow> epsilon * 2 ^ (n - 1) < it_high ?b - it_low ?b"
  proof
    assume "0 < n"
    then obtain m where m: "n = Suc m" by (cases n) auto
    with big show "epsilon * 2 ^ (n - 1) < it_high ?b - it_low ?b"
      by (simp add: w)
  qed
  from Suc.IH [OF a b] guard show ?case
    by (subst optimize_loop_unfold) simp
qed

lemma optimize_loop_nth:
  "i < length (fst (optimize_loop s low high)) \<Longrightarrow>
     it_high0 (fst (optimize_loop s low high) ! i) - it_low0 (fst (optimize_loop s low high) ! i)
       = (high - low) / 2 ^ i
     \<and> it_high (fst (optimize_loop s low high) ! i) - it_low (fst (optimize_loop s low high) ! i)
       = (high - low) / 2 ^ Suc i"
proof (induction low high arbitrary: i rule: optimize_loop_induct [where s = s])
  case (step low high)
  let ?b = "fst (loop_body s low high)"
  let ?rest = "fst (optimize_loop s (it_low ?b) (it_high ?b))"
  show ?case
  proof (cases "epsilon < high - low")
    case True
    then have unf: "fst (optimize_loop s low high) = ?b # ?rest"
      by (subst optimize_loop_unfold) simp
    show ?thesis
    proof (cases i)
      case 0
      then show ?thesis by (simp add: unf loop_body_width) (simp add: loop_body_eq)
    next
      case (Suc j)
      with step.prems unf have j: "j < length ?rest" by simp
      from step.IH [OF True j] show ?thesis
        by (simp add: unf Suc loop_body_width)
    qed
  next
    case False
    with step.prems show ?thesis by (subst (asm) optimize_loop_unfold) simp
  qed
qed

lemma optimize_loop_first:
  "fst (optimize_loop s low high) \<noteq> [] \<Longrightarrow>
     it_low0 (hd (fst (optimize_loop s low high))) = low
     \<and> it_high0 (hd (fst (optimize_loop s low high))) = high"
  by (subst (asm) optimize_loop_unfold, subst (1 2) optimize_loop_unfold)
     (simp add: loop_body_eq split: if_splits)

lemma optimize_loop_chain:
  "Suc i < length (fst (optimize_loop s low high)) \<Longrightarrow>
     it_low0 (fst (optimize_loop s low high) ! Suc i) = it_low (fst (optimize_loop s low high) ! i)
     \<and> it_high0 (fst (optimize_loop s low high) ! Suc i) = it_high (fst (optimize_loop s low high) ! i)"
proof (induction low high arbitrary: i rule: optimize_loop_induct [where s = s])
  case (step low high)
  let ?b = "fst (loop_body s low high)"
  let ?rest = "fst (optimize_loop s (it_low ?b) (it_high ?b))"
  show ?case
  proof (cases "epsilon < high - low")
    case True
    then have unf: "fst (optimize_loop s low high) = ?b # ?rest"
      by (subst optimize_loop_unfold) simp
    show ?thesis
    proof (cases i)
      case 0
      with step.prems unf have ne: "?rest \<noteq> []" by auto
      from optimize_loop_first [OF ne] ne show ?thesis
        by (simp add: unf 0 hd_conv_nth)
    next
      case (Suc j)
      with step.prems unf have j: "Suc j < length ?rest" by simp
      from step.IH [OF True j] show ?thesis
        by (simp add: unf Suc)
    qed
  next
    case False
    with step.prems show ?thesis by (subst (asm) optimize_loop_unfold) simp
  qed
qed

lemma optimize_loop_last:
  "fst (optimize_loop s low high) \<noteq> [] \<Longrightarrow>
     it_high (last (fst (optimize_loop s low high))) - it_low (last (fst (optimize_loop s low high)))
       \<le> epsilon"
proof (induction low high rule: optimize_loop_induct [where s = s])
  case (step low high)
  let ?b = "fst (loop_body s low high)"
  let ?rest = "fst (optimize_loop s (it_low ?b) (it_high ?b))"
  show ?case
  proof (cases "epsilon < high - low")
    case True
    then have unf: "fst (optimize_loop s low high) = ?b # ?rest"
      by (subst optimize_loop_unfold) simp
    show ?thesis
    proof (cases "?rest = []")
      case True
      then have "\<not> epsilon < it_high ?b - it_low ?b"
        by (subst (asm) optimize_loop_unfold) (simp split: if_splits)
      with True show ?thesis by (simp add: unf)
    next
      case False
      with step.IH [OF \<open>epsilon < high - low\<close> False] show ?thesis by (simp add: unf)
    qed
  next
    case False
    with step.prems show ?thesis by (subst (asm) optimize_loop_unfold) simp
  qed
qed

lemma optimize_loop_iteration:
  assumes "it \<in> set (fst (optimize_loop s low high))"
  shows "epsilon < it_high0 it - it_low0 it
       \<and> it_mid it = (it_low0 it + it_high0 it) / 2
       \<and> it_cost_mid it = fst (simulate_cost_vectorized (it_mid it) s)
       \<and> it_cost_low it = fst (simulate_cost_vectorized (it_low0 it) s)
       \<and> (if np_less (it_cost_mid it) (it_cost_low it)
           then it_low it = it_mid it \<and> it_high it = it_high0 it
           else it_low it = it_low0 it \<and> it_high it = it_mid it)
       \<and> it_high it - it_low it = (it_high0 it - it_low0 it) / 2"
proof -
  define l h where "l = it_low0 it" and "h = it_high0 it"
  from optimize_loop_member [OF assms]
  have e: "it = fst (loop_body s l h)" and g: "epsilon < h - l"
    by (simp_all add: l_def h_def)
  have f: "it_mid it = (l + h) / 2"
    "it_cost_mid it = np_mean (all_costs ((l + h) / 2) s)"
    "it_cost_low it = np_mean (all_costs l s)"
    "it_low it = (if np_less (np_mean (all_costs ((l + h) / 2) s)) (np_mean (all_costs l s))
                  then (l + h) / 2 else l)"
    "it_high it = (if np_less (np_mean (all_costs ((l + h) / 2) s)) (np_mean (all_costs l s))
                   then h else (l + h) / 2)"
    by (subst e, simp add: loop_body_eq)+
  have w: "it_high it - it_low it = (h - l) / 2"
    by (subst e, subst e, rule loop_body_width)
  have c2: "it_cost_mid it = fst (simulate_cost_vectorized (it_mid it) s)"
    unfolding f fst_simulate by (rule refl)
  have c3: "it_cost_low it = fst (simulate_cost_vectorized l s)"
    unfolding f fst_simulate by (rule refl)
  have c4: "if np_less (it_cost_mid it) (it_cost_low it)
            then it_low it = it_mid it \<and> it_high it = h
            else it_low it = l \<and> it_high it = it_mid it"
    unfolding f by simp
  from g f(1) c2 c3 c4 w show ?thesis
    unfolding l_def h_def by blast
qed

text \<open>The first iteration on the sample of the single pair 0.8, 0.7.\<close>

lemma example_first_iteration:
  "fst (optimize (1/2) (draw_sample (Suc 0) (\<lambda>i. 4/5) (\<lambda>i. 7/10)))
     = \<lparr>it_low0 = 0, it_high0 = 1, it_low = 0, it_high = 1/2, it_mid = 1/2,
        it_cost_mid = Some (289/100), it_cost_low = Some (289/100)\<rparr>
       # fst (optimize_loop (draw_sample (Suc 0) (\<lambda>i. 4/5) (\<lambda>i. 7/10)) 0 (1/2))"
  unfolding optimize_def
  by (subst optimize_loop_unfold)
     (simp add: loop_body_eq epsilon_def draw_sample_def Let_def np_less_def np_defs
        all_costs_def cost1_def cost2_def cost3_def case1_def case2_def case3_def power2_eq_square)

section \<open>Facts about the rounding of doubles\<close>

declare f64_exponent.simps [simp del]

lemma round_half_even_zero: "round_half_even x = 0 \<longleftrightarrow> \<bar>x\<bar> \<le> 1/2"
proof -
  define f where "f = \<lfloor>x\<rfloor>"
  have b: "of_int f \<le> x" "x < of_int f + 1" by (simp_all add: f_def)
  consider "f \<le> -2" | "f = -1" | "f = 0" | "f \<ge> 1" by linarith
  then show ?thesis
  proof cases
    case 1
    then have "of_int f \<le> (-2::real)" by linarith
    with b 1 show ?thesis
      by (auto simp: round_half_even_def Let_def f_def [symmetric])
  next
    case 2
    with b show ?thesis
      by (auto simp: round_half_even_def Let_def f_def [symmetric])
  next
    case 3
    with b show ?thesis
      by (auto simp: round_half_even_def Let_def f_def [symmetric])
  next
    case 4
    then have "(1::real) \<le> of_int f" by linarith
    with b 4 show ?thesis
      by (auto simp: round_half_even_def Let_def f_def [symmetric])
  qed
qed

lemma round_half_even_int: "round_half_even (of_int m) = m"
  by (simp add: round_half_even_def)

lemma round_half_even_ge: "of_int n \<le> x \<Longrightarrow> n \<le> round_half_even x"
proof -
  assume "of_int n \<le> x"
  then have "n \<le> \<lfloor>x\<rfloor>" by (simp add: le_floor_iff)
  then show ?thesis by (auto simp: round_half_even_def Let_def)
qed

lemma round_half_even_le: "x \<le> of_int n \<Longrightarrow> round_half_even x \<le> n"
proof -
  assume a: "x \<le> of_int n"
  show ?thesis
  proof (cases "x = of_int n")
    case True then show ?thesis by (simp add: round_half_even_int)
  next
    case False
    with a have "x < of_int n" by simp
    then have "\<lfloor>x\<rfloor> < n" by (simp add: floor_less_iff)
    then show ?thesis by (auto simp: round_half_even_def Let_def)
  qed
qed

lemma f64_exponent_bounds:
  "k = 0 \<or> 2 ^ (k + 52) * f64_tiny \<le> \<bar>x\<bar> \<Longrightarrow> k \<le> 2045 \<Longrightarrow>
     k \<le> f64_exponent k x \<and> f64_exponent k x \<le> 2045
     \<and> (f64_exponent k x = 0 \<or> 2 ^ (f64_exponent k x + 52) * f64_tiny \<le> \<bar>x\<bar>)
     \<and> (f64_exponent k x = 2045 \<or> \<bar>x\<bar> < 2 ^ (f64_exponent k x + 53) * f64_tiny)"
proof (induction k x rule: f64_exponent.induct)
  case (1 k x)
  show ?case
  proof (cases "k < 2045 \<and> 2 ^ (k + 53) * f64_tiny \<le> \<bar>x\<bar>")
    case True
    then have e: "f64_exponent k x = f64_exponent (Suc k) x"
      by (subst f64_exponent.simps) simp
    have "Suc k + 52 = k + 53" by simp
    with True have "Suc k = 0 \<or> 2 ^ (Suc k + 52) * f64_tiny \<le> \<bar>x\<bar>" "Suc k \<le> 2045"
      by (simp_all only: simp_thms) simp
    from "1.IH" [OF True this] show ?thesis
      unfolding e by auto
  next
    case False
    then have e: "f64_exponent k x = k"
      by (subst f64_exponent.simps) auto
    from False "1.prems" show ?thesis
      unfolding e by auto
  qed
qed

lemmas f64_exponent_0 = f64_exponent_bounds [where k = 0, simplified]

lemma f64_tiny_pos: "0 < f64_tiny"
  by (simp add: f64_tiny_def)

lemma round_half_even_minus: "round_half_even (- x) = - round_half_even x"
proof (cases "x = of_int \<lfloor>x\<rfloor>")
  case True
  then obtain m :: int where "x = of_int m" ..
  then have "- x = of_int (- m)" by simp
  then show ?thesis unfolding \<open>x = of_int m\<close> by (simp only: round_half_even_int)
next
  case False
  define f where "f = \<lfloor>x\<rfloor>"
  have le: "of_int f \<le> x" by (simp add: f_def)
  have ne: "x \<noteq> of_int f" using False by (simp add: f_def)
  have up: "x < of_int f + 1" by (simp add: f_def)
  from le ne up have b: "of_int f < x" "x < of_int f + 1" by linarith+
  then have fl: "\<lfloor>- x\<rfloor> = - f - 1"
    by (intro floor_unique) simp_all
  show ?thesis
    using b by (auto simp: round_half_even_def Let_def fl f_def [symmetric])
qed

lemma f64_exponent_abs: "f64_exponent k (- x) = f64_exponent k x"
  by (induction k x rule: f64_exponent.induct)
     (subst (1 2) f64_exponent.simps, simp)

lemma f64_round_minus: "f64_round (- x) = - f64_round x"
  by (simp add: f64_round_def Let_def f64_exponent_abs round_half_even_minus)

lemma f64_round_zero_iff: "f64_round x = 0 \<longleftrightarrow> \<bar>x\<bar> \<le> f64_tiny / 2"
proof -
  define e where "e = f64_exponent 0 x"
  define q where "q = 2 ^ e * f64_tiny"
  have qpos: "0 < q" by (simp add: q_def f64_tiny_pos)
  have low: "e = 0 \<or> 2 ^ (e + 52) * f64_tiny \<le> \<bar>x\<bar>"
    using f64_exponent_0 [of x] by (simp add: e_def)
  have "f64_round x = q * of_int (round_half_even (x / q))"
    by (simp add: f64_round_def Let_def q_def e_def)
  then have "f64_round x = 0 \<longleftrightarrow> round_half_even (x / q) = 0"
    using qpos by simp
  also have "\<dots> \<longleftrightarrow> \<bar>x\<bar> \<le> q / 2"
    using qpos by (simp add: round_half_even_zero field_simps)
  also have "\<dots> \<longleftrightarrow> \<bar>x\<bar> \<le> f64_tiny / 2"
  proof (cases "e = 0")
    case True
    then show ?thesis by (simp add: q_def)
  next
    case False
    with low have big: "2 ^ (e + 52) * f64_tiny \<le> \<bar>x\<bar>" by simp
    have "2 ^ (e + 52) * f64_tiny = 2 ^ 52 * q"
      by (simp add: q_def power_add)
    with big have big': "2 ^ 52 * q \<le> \<bar>x\<bar>" by simp
    have "1 * f64_tiny \<le> 2 ^ e * f64_tiny"
      using f64_tiny_pos by (intro mult_right_mono) simp_all
    then have tq: "f64_tiny \<le> q" by (simp add: q_def)
    from big' qpos have a: "q / 2 < \<bar>x\<bar>" by simp
    from big' qpos tq have b: "f64_tiny / 2 < \<bar>x\<bar>" by simp
    from a b show ?thesis by simp
  qed
  finally show ?thesis .
qed

lemma f64_round_eq:
  "f64_round x = 2 ^ f64_exponent 0 x * f64_tiny
                 * of_int (round_half_even (x / (2 ^ f64_exponent 0 x * f64_tiny)))"
  by (simp add: f64_round_def Let_def)

lemma pow_tiny_mono: "m \<le> n \<Longrightarrow> 2 ^ m * f64_tiny \<le> 2 ^ n * f64_tiny"
  using f64_tiny_pos by (intro mult_right_mono power_increasing) simp_all

lemma f64_round_lower:
  assumes n: "53 \<le> n" "n \<le> 2097" and h: "2 ^ n * f64_tiny \<le> x"
  shows "2 ^ n * f64_tiny \<le> f64_round x"
proof -
  define e where "e = f64_exponent 0 x"
  define q where "q = 2 ^ e * f64_tiny"
  have qpos: "0 < q" by (simp add: q_def f64_tiny_pos)
  have xpos: "0 < x"
  proof -
    have "0 < 2 ^ n * f64_tiny" by (simp add: f64_tiny_pos)
    with h show ?thesis by linarith
  qed
  have low: "e = 0 \<or> 2 ^ (e + 52) * f64_tiny \<le> x"
    and up: "e = 2045 \<or> x < 2 ^ (e + 53) * f64_tiny"
    using f64_exponent_0 [of x] xpos by (simp_all add: e_def)
  have fr: "f64_round x = q * of_int (round_half_even (x / q))"
    by (simp add: f64_round_eq q_def e_def)
  show ?thesis
  proof (cases "n \<le> e + 52")
    case True
    with n(1) have "e \<noteq> 0" by simp
    with low have "2 ^ (e + 52) * f64_tiny \<le> x" by simp
    then have "2 ^ 52 * q \<le> x" by (simp add: q_def power_add)
    then have "of_int (2 ^ 52) \<le> x / q"
      using qpos by (simp add: le_divide_eq)
    then have "2 ^ 52 \<le> round_half_even (x / q)" by (rule round_half_even_ge)
    then have "(2 ^ 52 :: real) \<le> of_int (round_half_even (x / q))"
      by (metis of_int_le_iff of_int_numeral of_int_power)
    then have "q * 2 ^ 52 \<le> q * of_int (round_half_even (x / q))"
      using qpos by (intro mult_left_mono) simp_all
    then have "2 ^ (e + 52) * f64_tiny \<le> f64_round x"
      by (simp add: fr) (simp add: q_def power_add)
    moreover have "2 ^ n * f64_tiny \<le> 2 ^ (e + 52) * f64_tiny"
      using True by (rule pow_tiny_mono)
    ultimately show ?thesis by linarith
  next
    case False
    then have le: "e + 53 \<le> n" by simp
    with n(2) have "e \<noteq> 2045" by simp
    with up have "x < 2 ^ (e + 53) * f64_tiny" by simp
    moreover have "2 ^ (e + 53) * f64_tiny \<le> 2 ^ n * f64_tiny"
      using le by (rule pow_tiny_mono)
    ultimately show ?thesis using h by linarith
  qed
qed

lemma f64_round_upper:
  assumes x0: "0 \<le> x" and h: "x \<le> 2 ^ n * f64_tiny"
  shows "f64_round x \<le> 2 ^ n * f64_tiny"
proof -
  define e where "e = f64_exponent 0 x"
  define q where "q = 2 ^ e * f64_tiny"
  have qpos: "0 < q" by (simp add: q_def f64_tiny_pos)
  have low: "e = 0 \<or> 2 ^ (e + 52) * f64_tiny \<le> x"
    using f64_exponent_0 [of x] x0 by (simp add: e_def)
  have fr: "f64_round x = q * of_int (round_half_even (x / q))"
    by (simp add: f64_round_eq q_def e_def)
  have en: "e \<le> n"
  proof (rule ccontr)
    assume "\<not> e \<le> n"
    then have ne: "n < e" "e \<noteq> 0" by simp_all
    with low have "2 ^ (e + 52) * f64_tiny \<le> x" by simp
    moreover have "2 ^ n * f64_tiny \<le> 2 ^ e * f64_tiny"
      using ne(1) by (intro pow_tiny_mono) simp
    moreover have "2 ^ e * f64_tiny < 2 ^ (e + 52) * f64_tiny"
      using f64_tiny_pos by (simp add: power_add)
    ultimately show False using h by linarith
  qed
  then have split: "2 ^ n * f64_tiny = q * 2 ^ (n - e)"
    by (simp add: q_def power_add [symmetric])
  with h have "x \<le> q * 2 ^ (n - e)" by simp
  then have "x / q \<le> of_int (2 ^ (n - e))"
    using qpos by (simp add: divide_le_eq mult.commute)
  then have "round_half_even (x / q) \<le> 2 ^ (n - e)" by (rule round_half_even_le)
  then have "of_int (round_half_even (x / q)) \<le> (2 ^ (n - e) :: real)"
    by (metis of_int_le_iff of_int_numeral of_int_power)
  then have "q * of_int (round_half_even (x / q)) \<le> q * 2 ^ (n - e)"
    using qpos by (intro mult_left_mono) simp_all
  then show ?thesis by (simp add: fr split)
qed

lemma f64_round_abs_lower:
  assumes "53 \<le> n" "n \<le> 2097" "2 ^ n * f64_tiny \<le> \<bar>x\<bar>"
  shows "2 ^ n * f64_tiny \<le> \<bar>f64_round x\<bar>"
proof (cases "0 \<le> x")
  case True
  with assms f64_round_lower [of n x] show ?thesis by simp
next
  case False
  with assms f64_round_lower [of n "- x"] show ?thesis
    by (simp add: f64_round_minus)
qed

lemma f64_round_abs_upper:
  assumes "\<bar>x\<bar> \<le> 2 ^ n * f64_tiny"
  shows "\<bar>f64_round x\<bar> \<le> 2 ^ n * f64_tiny"
proof -
  have nonneg: "0 \<le> f64_round y" if "0 \<le> y" for y
  proof -
    have "0 \<le> round_half_even (y / (2 ^ f64_exponent 0 y * f64_tiny))"
      using that f64_tiny_pos by (intro round_half_even_ge) simp
    then show ?thesis
      using f64_tiny_pos by (simp add: f64_round_eq)
  qed
  show ?thesis
  proof (cases "0 \<le> x")
    case True
    with assms f64_round_upper [of x n] nonneg [of x] show ?thesis by simp
  next
    case False
    then have "0 \<le> - x" by simp
    with assms f64_round_upper [of "- x" n] nonneg [of "- x"] show ?thesis
      by (simp add: f64_round_minus)
  qed
qed

lemma f64_exponent_unique:
  assumes k: "k \<le> 2045" and low: "k = 0 \<or> 2 ^ (k + 52) * f64_tiny \<le> \<bar>x\<bar>"
    and up: "\<bar>x\<bar> < 2 ^ (k + 53) * f64_tiny"
  shows "f64_exponent 0 x = k"
proof -
  define r where "r = f64_exponent 0 x"
  have rl: "r = 0 \<or> 2 ^ (r + 52) * f64_tiny \<le> \<bar>x\<bar>"
    and ru: "r = 2045 \<or> \<bar>x\<bar> < 2 ^ (r + 53) * f64_tiny"
    using f64_exponent_0 [of x] by (simp_all add: r_def)
  have "\<not> r < k"
  proof
    assume lt: "r < k"
    with k have "r \<noteq> 2045" by simp
    with ru have "\<bar>x\<bar> < 2 ^ (r + 53) * f64_tiny" by simp
    moreover have "2 ^ (r + 53) * f64_tiny \<le> 2 ^ (k + 52) * f64_tiny"
      using lt by (intro pow_tiny_mono) simp
    moreover from lt low have "2 ^ (k + 52) * f64_tiny \<le> \<bar>x\<bar>" by simp
    ultimately show False by linarith
  qed
  moreover have "\<not> k < r"
  proof
    assume lt: "k < r"
    with rl have "2 ^ (r + 52) * f64_tiny \<le> \<bar>x\<bar>" by simp
    moreover have "2 ^ (k + 53) * f64_tiny \<le> 2 ^ (r + 52) * f64_tiny"
      using lt by (intro pow_tiny_mono) simp
    ultimately show False using up by linarith
  qed
  ultimately show ?thesis by (simp add: r_def)
qed

lemma is_f64_multiple:
  assumes k: "k \<le> 2045" and x: "x = of_int m * (2 ^ k * f64_tiny)"
    and m: "\<bar>m\<bar> < 2 ^ 53" "k = 0 \<or> 2 ^ 52 \<le> \<bar>m\<bar>"
  shows "is_f64 x"
proof -
  define q where "q = 2 ^ k * f64_tiny"
  have qpos: "0 < q" by (simp add: q_def f64_tiny_pos)
  have xq: "x = of_int m * q" by (simp add: x q_def)
  have ax: "\<bar>x\<bar> = of_int \<bar>m\<bar> * q"
    using qpos by (simp add: xq abs_mult)
  have "of_int \<bar>m\<bar> < (2 ^ 53 :: real)"
    using m(1) by (metis of_int_less_iff of_int_numeral of_int_power)
  then have "of_int \<bar>m\<bar> * q < 2 ^ 53 * q"
    using qpos by (intro mult_strict_right_mono)
  then have up: "\<bar>x\<bar> < 2 ^ (k + 53) * f64_tiny"
    by (simp add: ax q_def power_add)
  have low: "k = 0 \<or> 2 ^ (k + 52) * f64_tiny \<le> \<bar>x\<bar>"
  proof (cases "k = 0")
    case True then show ?thesis by simp
  next
    case False
    with m(2) have "2 ^ 52 \<le> \<bar>m\<bar>" by simp
    then have "(2 ^ 52 :: real) \<le> of_int \<bar>m\<bar>"
      by (metis of_int_le_iff of_int_numeral of_int_power)
    then have "2 ^ 52 * q \<le> of_int \<bar>m\<bar> * q"
      using qpos by (intro mult_right_mono) simp_all
    then show ?thesis by (simp add: ax q_def power_add)
  qed
  have e: "f64_exponent 0 x = k"
    by (rule f64_exponent_unique [OF k low up])
  have "x / q = of_int m" using qpos by (simp add: xq)
  then have "f64_round x = q * of_int m"
    by (simp add: f64_round_eq e q_def [symmetric] round_half_even_int)
  then have exact: "f64_round x = x" by (simp add: xq)
  have "2 ^ (k + 53) * f64_tiny \<le> 2 ^ 2098 * f64_tiny"
    using k by (intro pow_tiny_mono) simp
  also have "2 ^ 2098 * f64_tiny = 2 ^ 1024"
    by (simp add: f64_tiny_def)
  finally have "\<bar>x\<bar> < 2 ^ 1024" using up by linarith
  with exact show ?thesis by (simp add: is_f64_def)
qed

lemma is_f64_0: "is_f64 0"
  by (rule is_f64_multiple [of 0 _ 0]) simp_all

lemma is_f64_1: "is_f64 1"
  by (rule is_f64_multiple [of 1022 _ "2 ^ 52"]) (simp_all add: f64_tiny_def)

lemma is_f64_half: "is_f64 (1/2)"
  by (rule is_f64_multiple [of 1021 _ "2 ^ 52"]) (simp_all add: f64_tiny_def)

lemma is_f64_quarter: "is_f64 (1/4)"
  by (rule is_f64_multiple [of 1020 _ "2 ^ 52"]) (simp_all add: f64_tiny_def)

lemma is_f64_small: "is_f64 (1 / 2 ^ 600)"
  by (rule is_f64_multiple [of 422 _ "2 ^ 52"]) (simp_all add: f64_tiny_def)

lemma f64_square_zero_iff: "f64_square d = 0 \<longleftrightarrow> d\<^sup>2 \<le> f64_tiny / 2"
  by (simp add: f64_square_def f64_round_zero_iff power2_eq_square)

lemma f64_square_add_one_nonzero:
  assumes "0 \<le> x"
  shows "f64_square (f64_add x 1) \<noteq> 0"
proof -
  have one: "2 ^ 1074 * f64_tiny = 1" by (simp add: f64_tiny_def)
  have "1 \<le> x + 1" using assms by simp
  then have "2 ^ 1074 * f64_tiny \<le> x + 1" by (simp only: one)
  then have "2 ^ 1074 * f64_tiny \<le> f64_round (x + 1)"
    by (rule f64_round_lower [rotated 2]) simp_all
  then have "1 \<le> f64_add x 1" by (simp only: one f64_add_def)
  then have "1 * 1 \<le> f64_add x 1 * f64_add x 1"
    by (intro mult_mono) simp_all
  then have "1 \<le> (f64_add x 1)\<^sup>2" by (simp add: power2_eq_square)
  moreover have "f64_tiny / 2 < 1" by (simp add: f64_tiny_def)
  ultimately show ?thesis by (simp add: f64_square_zero_iff)
qed

lemma f64_sub_small:
  assumes "\<bar>x - y\<bar> \<le> 1 / 2 ^ 538"
  shows "f64_square (f64_sub x y) = 0"
proof -
  define b :: real where "b = 1 / 2 ^ 538"
  have p: "2 ^ 536 * f64_tiny = b" by (simp add: f64_tiny_def b_def)
  have b0: "0 \<le> b" by (simp add: b_def)
  have bb: "b * b \<le> f64_tiny / 2" by (simp add: f64_tiny_def b_def)
  have "\<bar>x - y\<bar> \<le> 2 ^ 536 * f64_tiny"
    using assms by (simp only: p b_def)
  then have "\<bar>f64_round (x - y)\<bar> \<le> 2 ^ 536 * f64_tiny"
    by (rule f64_round_abs_upper)
  then have "\<bar>f64_sub x y\<bar> \<le> b" by (simp only: p f64_sub_def)
  then have "\<bar>f64_sub x y\<bar> * \<bar>f64_sub x y\<bar> \<le> b * b"
    using b0 by (intro mult_mono) simp_all
  then have "(f64_sub x y)\<^sup>2 \<le> b * b"
    by (simp add: power2_eq_square)
  with bb have "(f64_sub x y)\<^sup>2 \<le> f64_tiny / 2" by linarith
  then show ?thesis by (simp only: f64_square_zero_iff)
qed

lemma f64_sub_large:
  assumes "1 / 2 ^ 537 \<le> \<bar>x - y\<bar>"
  shows "f64_square (f64_sub x y) \<noteq> 0"
proof -
  define b :: real where "b = 1 / 2 ^ 537"
  have p: "2 ^ 537 * f64_tiny = b" by (simp add: f64_tiny_def b_def)
  have b0: "0 \<le> b" by (simp add: b_def)
  have bb: "f64_tiny / 2 < b * b" by (simp add: f64_tiny_def b_def)
  have "2 ^ 537 * f64_tiny \<le> \<bar>x - y\<bar>"
    using assms by (simp only: p b_def)
  then have "2 ^ 537 * f64_tiny \<le> \<bar>f64_round (x - y)\<bar>"
    by (rule f64_round_abs_lower [rotated 2]) simp_all
  then have "b \<le> \<bar>f64_sub x y\<bar>" by (simp only: p f64_sub_def)
  then have "b * b \<le> \<bar>f64_sub x y\<bar> * \<bar>f64_sub x y\<bar>"
    using b0 by (intro mult_mono) simp_all
  then have "b * b \<le> (f64_sub x y)\<^sup>2"
    by (simp add: power2_eq_square)
  with bb have "\<not> (f64_sub x y)\<^sup>2 \<le> f64_tiny / 2" by linarith
  then show ?thesis by (simp add: f64_square_zero_iff)
qed

section \<open>The cost evaluator computes the sample mean of the piecewise cost\<close>

text \<open>
  C1. For a sample whose pairs satisfy \<open>vmin \<le> vmax\<close>, the array \<open>all_costs\<close> holds, up to
  order, exactly one cost for each drawn pair, namely the piecewise cost of that pair:
  \<open>(vmin - a)\<^sup>2\<close> when \<open>a > vmax\<close>, 0 when \<open>vmin \<le> a \<le> vmax\<close>, \<open>(vmin + 1)\<^sup>2\<close> when
  \<open>a < vmin\<close>; and \<open>simulate_cost_vectorized(a)\<close> returns the arithmetic mean of these
  costs over all N pairs (\<open>nan\<close> when N is 0). The bounds 0 and 1 on the speeds and on the
  threshold are not needed.
\<close>

theorem simulate_cost_is_sample_mean:
  assumes "list_all2 (\<le>) (vmin s) (vmax s)"
  shows "mset (all_costs a s) = mset (map (spec_pair_cost a) (zip (vmin s) (vmax s)))
       \<and> length (all_costs a s) = length (vmin s)
       \<and> fst (simulate_cost_vectorized a s)
           = (if vmin s = [] then None
              else Some (spec_expected_cost a (zip (vmin s) (vmax s))))"
proof -
  have len: "length (all_costs a s) = length (vmin s)"
    by (rule length_all_costs [OF assms])
  have lz: "length (zip (vmin s) (vmax s)) = length (vmin s)"
    using assms by (simp add: list_all2_lengthD)
  have empty: "(all_costs a s = []) = (vmin s = [])"
    using len by (metis length_0_conv)
  have "np_mean (all_costs a s)
      = (if vmin s = [] then None else Some (spec_expected_cost a (zip (vmin s) (vmax s))))"
    unfolding np_mean_def spec_expected_cost_def sum_list_all_costs [OF assms] len lz empty
    by (rule refl)
  with all_costs_mset [OF assms] len show ?thesis
    by (simp add: fst_simulate)
qed

theorem simulate_cost_is_sample_mean_witness:
  "list_all2 (\<le>) [7/10, 0, 1/10] [4/5, 1/10, 4/5 :: real]
   \<and> fst (simulate_cost_vectorized (1/5)
        \<lparr>v1 = [4/5, 1/10, 4/5], v2 = [7/10, 0, 1/10],
         vmin = [7/10, 0, 1/10], vmax = [4/5, 1/10, 4/5]\<rparr>) = Some (293/300)"
proof -
  have h: "list_all2 (\<le>) [7/10, 0, 1/10] [4/5, 1/10, 4/5 :: real]" by simp
  show ?thesis
    using h simulate_cost_is_sample_mean [of "\<lparr>v1 = [4/5, 1/10, 4/5], v2 = [7/10, 0, 1/10],
         vmin = [7/10, 0, 1/10], vmax = [4/5, 1/10, 4/5]\<rparr>" "1/5"]
    by (simp add: spec_expected_cost_def spec_pair_cost_def power2_eq_square)
qed

section \<open>When the cost of a pair is zero\<close>

text \<open>
  C2. For a single pair of doubles with \<open>0 \<le> vmin \<le> vmax \<le> 1\<close> and a double threshold
  \<open>a\<close> in \<open>[0, 1]\<close>, the cost that \<open>simulate_cost_vectorized\<close> computes for the pair is 0
  if and only if \<open>vmin \<le> a \<le> vmax\<close>, or \<open>a > vmax\<close> and the square of the rounded difference
  \<open>vmin - a\<close> is at most \<open>2^-1075\<close>, where the product underflows to \<open>0.0\<close>. The
  underflow occurs whenever \<open>a - vmin \<le> 2^-538\<close> and never when \<open>a - vmin \<ge> 2^-537\<close>.
\<close>

theorem pair_cost_zero_iff_between_or_underflow:
  assumes "vmin s = [lo]" and "vmax s = [hi]"
    and "is_f64 lo" and "is_f64 hi" and "is_f64 a"
    and "0 \<le> lo" and "lo \<le> hi" and "hi \<le> 1" and "0 \<le> a" and "a \<le> 1"
  shows "\<exists>c. all_costs_f64 a s = [c]
            \<and> (c = 0 \<longleftrightarrow> (lo \<le> a \<and> a \<le> hi) \<or> (hi < a \<and> (f64_sub lo a)\<^sup>2 \<le> f64_tiny / 2))
            \<and> (hi < a \<and> a - lo \<le> 1 / 2 ^ 538 \<longrightarrow> c = 0)
            \<and> (hi < a \<and> 1 / 2 ^ 537 \<le> a - lo \<longrightarrow> c \<noteq> 0)"
proof -
  consider "a > hi" | "lo \<le> a \<and> a \<le> hi" | "a < lo" using assms(7) by linarith
  then show ?thesis
  proof cases
    case 1
    with assms(1,2,7) have c: "all_costs_f64 a s = [f64_square (f64_sub lo a)]"
      by (simp add: all_costs_f64_def cost1_f64_def cost2_def cost3_f64_def
          case1_def case2_def case3_def np_defs)
    have small: "a - lo \<le> 1 / 2 ^ 538 \<longrightarrow> f64_square (f64_sub lo a) = 0"
      using 1 assms(7) by (auto intro!: f64_sub_small)
    have large: "1 / 2 ^ 537 \<le> a - lo \<longrightarrow> f64_square (f64_sub lo a) \<noteq> 0"
      using 1 assms(7) by (auto intro!: f64_sub_large)
    from 1 c small large show ?thesis
      by (simp add: f64_square_zero_iff)
  next
    case 2
    with assms(1,2) have "all_costs_f64 a s = [0]"
      by (simp add: all_costs_f64_def cost1_f64_def cost2_def cost3_f64_def
          case1_def case2_def case3_def np_defs)
    with 2 show ?thesis by simp
  next
    case 3
    with assms(1,2,7) have c: "all_costs_f64 a s = [f64_square (f64_add lo 1)]"
      by (simp add: all_costs_f64_def cost1_f64_def cost2_def cost3_f64_def
          case1_def case2_def case3_def np_defs)
    from 3 assms(7) c f64_square_add_one_nonzero [OF assms(6)] show ?thesis
      by simp
  qed
qed

theorem pair_cost_zero_iff_between_or_underflow_witness:
  "is_f64 (1/4) \<and> is_f64 (1/2) \<and> is_f64 1
   \<and> (0::real) \<le> 1/4 \<and> (1/4::real) \<le> 1/2 \<and> (1/2::real) \<le> 1 \<and> (0::real) \<le> 1
   \<and> (1/2::real) < 1 \<and> (1 / 2 ^ 537 :: real) \<le> 1 - 1/4
   \<and> (\<exists>c. all_costs_f64 1 \<lparr>v1 = [1/2], v2 = [1/4], vmin = [1/4], vmax = [1/2]\<rparr> = [c]
          \<and> c \<noteq> 0)"
proof -
  have far: "(1 / 2 ^ 537 :: real) \<le> 1 - 1/4" by simp
  from pair_cost_zero_iff_between_or_underflow
    [of "\<lparr>v1 = [1/2], v2 = [1/4], vmin = [1/4], vmax = [1/2]\<rparr>" "1/4" "1/2" 1,
     OF _ _ is_f64_quarter is_f64_half is_f64_1]
  obtain c where "all_costs_f64 1 \<lparr>v1 = [1/2], v2 = [1/4], vmin = [1/4], vmax = [1/2]\<rparr> = [c]"
    and "(1/2::real) < 1 \<and> 1 / 2 ^ 537 \<le> 1 - (1/4::real) \<longrightarrow> c \<noteq> 0"
    by auto
  with far have "\<exists>c. all_costs_f64 1 \<lparr>v1 = [1/2], v2 = [1/4], vmin = [1/4], vmax = [1/2]\<rparr> = [c]
          \<and> c \<noteq> 0" by auto
  with far is_f64_quarter is_f64_half is_f64_1 show ?thesis by simp
qed

text \<open>
  The pair \<open>vmin = vmax = 0.0\<close> at the threshold \<open>2^-600\<close>: the threshold lies above
  \<open>vmax\<close>, not between the two speeds, and the computed cost \<open>(0.0 - a) ** 2\<close> is \<open>0.0\<close>.
\<close>

theorem pair_cost_zero_underflow_counterexample:
  "is_f64 0 \<and> is_f64 (1 / 2 ^ 600)
   \<and> (0::real) \<le> 1 / 2 ^ 600 \<and> (1 / 2 ^ 600 :: real) \<le> 1
   \<and> all_costs_f64 (1 / 2 ^ 600) \<lparr>v1 = [0], v2 = [0], vmin = [0], vmax = [0]\<rparr> = [0]
   \<and> \<not> ((0::real) \<le> 1 / 2 ^ 600 \<and> (1 / 2 ^ 600 :: real) \<le> 0)"
proof -
  have "f64_square (f64_sub 0 (1 / 2 ^ 600)) = 0"
    by (rule f64_sub_small) simp
  then have "all_costs_f64 (1 / 2 ^ 600) \<lparr>v1 = [0], v2 = [0], vmin = [0], vmax = [0]\<rparr> = [0]"
    by (simp add: all_costs_f64_def cost1_f64_def cost2_def cost3_f64_def
        case1_def case2_def case3_def np_defs)
  with is_f64_0 is_f64_small show ?thesis by simp
qed

section \<open>The two worked examples of the notebook\<close>

text \<open>
  C3. The pair with speeds 1.8 and 1.7 (0.8 and 0.7 after the shift) and the threshold
  1.2 (0.2 after the shift): both cars are above the threshold, and the notebook's text
  gives the cost 0.25. The code selects the third branch and returns
  \<open>(0.7 + 1)\<^sup>2 = 2.89\<close>.
\<close>

theorem example_fast_lane_cost:
  "fst (simulate_cost_vectorized (2/10) (draw_sample 1 (\<lambda>i. 8/10) (\<lambda>i. 7/10)))
     = Some (289/100)"
  by (simp add: draw_sample_def Let_def cost_defs np_defs power2_eq_square)

text \<open>
  C4. The pair with speeds 1.1 and 1.0 (0.1 and 0.0 after the shift) and a threshold
  above both: the notebook's text gives the cost 1. The code selects the first branch
  and returns \<open>(0 - a)\<^sup>2\<close>, which is 0.25 at the threshold 0.5.
\<close>

theorem example_slow_lane_cost:
  "fst (simulate_cost_vectorized (1/2) (draw_sample 1 (\<lambda>i. 1/10) (\<lambda>i. 0)))
     = Some (1/4)"
  by (simp add: draw_sample_def Let_def cost_defs np_defs power2_eq_square)

section \<open>The search terminates\<close>

text \<open>
  C5. For every drawn sample, \<open>optimize\<close> terminates after exactly 10 iterations. The first
  iteration starts from \<open>low = 0\<close>, \<open>high = 1\<close>; every iteration is entered with
  \<open>high - low > epsilon\<close>, sets \<open>mid = (low + high) / 2\<close>, evaluates the cost at \<open>mid\<close> and
  at \<open>low\<close>, and sets \<open>low := mid\<close> when the cost at \<open>mid\<close> is smaller and \<open>high := mid\<close>
  otherwise, which halves the width; each iteration starts where the one before ended; the
  width after the i-th iteration is \<open>1 / 2^i\<close>, and after the last one it is at most
  \<open>epsilon\<close>.
\<close>

theorem optimize_terminates_after_ten_iterations:
  "let s = draw_sample N u1 u2; tr = fst (optimize a s) in
     length tr = 10
     \<and> it_low0 (hd tr) = 0 \<and> it_high0 (hd tr) = 1
     \<and> (\<forall>it \<in> set tr.
           epsilon < it_high0 it - it_low0 it
           \<and> it_mid it = (it_low0 it + it_high0 it) / 2
           \<and> it_cost_mid it = fst (simulate_cost_vectorized (it_mid it) s)
           \<and> it_cost_low it = fst (simulate_cost_vectorized (it_low0 it) s)
           \<and> (if np_less (it_cost_mid it) (it_cost_low it)
               then it_low it = it_mid it \<and> it_high it = it_high0 it
               else it_low it = it_low0 it \<and> it_high it = it_mid it)
           \<and> it_high it - it_low it = (it_high0 it - it_low0 it) / 2)
     \<and> (\<forall>i. Suc i < length tr \<longrightarrow>
           it_low0 (tr ! Suc i) = it_low (tr ! i) \<and> it_high0 (tr ! Suc i) = it_high (tr ! i))
     \<and> (\<forall>i < 10. it_high (tr ! i) - it_low (tr ! i) = 1 / 2 ^ Suc i)
     \<and> it_high (last tr) - it_low (last tr) \<le> epsilon"
proof -
  define s where "s = draw_sample N u1 u2"
  define tr where "tr = fst (optimize_loop s 0 1)"
  have len: "length tr = 10"
    unfolding tr_def by (rule optimize_loop_length) (simp_all add: epsilon_def)
  then have ne: "tr \<noteq> []" by auto
  have first: "it_low0 (hd tr) = 0 \<and> it_high0 (hd tr) = 1"
    using ne unfolding tr_def by (rule optimize_loop_first)
  have body: "\<forall>it \<in> set tr.
           epsilon < it_high0 it - it_low0 it
           \<and> it_mid it = (it_low0 it + it_high0 it) / 2
           \<and> it_cost_mid it = fst (simulate_cost_vectorized (it_mid it) s)
           \<and> it_cost_low it = fst (simulate_cost_vectorized (it_low0 it) s)
           \<and> (if np_less (it_cost_mid it) (it_cost_low it)
               then it_low it = it_mid it \<and> it_high it = it_high0 it
               else it_low it = it_low0 it \<and> it_high it = it_mid it)
           \<and> it_high it - it_low it = (it_high0 it - it_low0 it) / 2"
    unfolding tr_def by (intro ballI optimize_loop_iteration)
  have chain: "\<forall>i. Suc i < length tr \<longrightarrow>
           it_low0 (tr ! Suc i) = it_low (tr ! i) \<and> it_high0 (tr ! Suc i) = it_high (tr ! i)"
    unfolding tr_def by (intro allI impI optimize_loop_chain)
  have width: "\<forall>i < 10. it_high (tr ! i) - it_low (tr ! i) = 1 / 2 ^ Suc i"
  proof (intro allI impI)
    fix i :: nat assume "i < 10"
    with len have "i < length (fst (optimize_loop s 0 1))" by (simp add: tr_def)
    from optimize_loop_nth [OF this] show "it_high (tr ! i) - it_low (tr ! i) = 1 / 2 ^ Suc i"
      by (simp add: tr_def)
  qed
  have final: "it_high (last tr) - it_low (last tr) \<le> epsilon"
    using ne unfolding tr_def by (rule optimize_loop_last)
  from len first body chain width final show ?thesis
    unfolding Let_def optimize_def s_def [symmetric] tr_def [symmetric] by blast
qed

theorem optimize_terminates_after_ten_iterations_witness:
  "let tr = fst (optimize (1/2) (draw_sample (Suc 0) (\<lambda>i. 4/5) (\<lambda>i. 7/10))) in
     length tr = 10
     \<and> hd tr = \<lparr>it_low0 = 0, it_high0 = 1, it_low = 0, it_high = 1/2, it_mid = 1/2,
                it_cost_mid = Some (289/100), it_cost_low = Some (289/100)\<rparr>
     \<and> hd tr \<in> set tr
     \<and> epsilon < it_high0 (hd tr) - it_low0 (hd tr)
     \<and> Suc 0 < length tr
     \<and> it_low0 (tr ! Suc 0) = 0 \<and> it_high0 (tr ! Suc 0) = 1/2
     \<and> it_high (tr ! 9) - it_low (tr ! 9) = 1 / 1024
     \<and> it_high (last tr) - it_low (last tr) \<le> epsilon"
proof -
  define tr where "tr = fst (optimize (1/2) (draw_sample (Suc 0) (\<lambda>i. 4/5) (\<lambda>i. 7/10)))"
  note t = optimize_terminates_after_ten_iterations
    [of "Suc 0" "\<lambda>i. 4/5" "\<lambda>i. 7/10" "1/2", unfolded Let_def, folded tr_def]
  from t have len: "length tr = 10" by (rule conjunct1)
  have first: "hd tr = \<lparr>it_low0 = 0, it_high0 = 1, it_low = 0, it_high = 1/2, it_mid = 1/2,
                it_cost_mid = Some (289/100), it_cost_low = Some (289/100)\<rparr>"
    unfolding tr_def by (simp add: example_first_iteration)
  from len have mem: "hd tr \<in> set tr" by (intro hd_in_set) auto
  from t mem have guard: "epsilon < it_high0 (hd tr) - it_low0 (hd tr)" by blast
  from len have one: "Suc 0 < length tr" by simp
  from t one have "it_low0 (tr ! Suc 0) = it_low (tr ! 0) \<and> it_high0 (tr ! Suc 0) = it_high (tr ! 0)"
    by blast
  moreover from len have "tr ! 0 = hd tr" by (intro hd_conv_nth [symmetric]) auto
  ultimately have second: "it_low0 (tr ! Suc 0) = 0 \<and> it_high0 (tr ! Suc 0) = 1/2"
    by (simp add: first)
  from t have "\<forall>i<10. it_high (tr ! i) - it_low (tr ! i) = 1 / 2 ^ Suc i" by blast
  then have "it_high (tr ! 9) - it_low (tr ! 9) = 1 / 2 ^ Suc 9" by simp
  then have ninth: "it_high (tr ! 9) - it_low (tr ! 9) = 1 / 1024" by simp
  from t have final: "it_high (last tr) - it_low (last tr) \<le> epsilon" by blast
  from len first mem guard one second ninth final show ?thesis
    unfolding Let_def tr_def [symmetric] by blast
qed

section \<open>Nonnegative costs\<close>

text \<open>
  C6. For every threshold and every nonempty sample with \<open>vmin \<le> vmax\<close> in each pair,
  every entry of \<open>all_costs\<close> is nonnegative and \<open>simulate_cost_vectorized(a)\<close> returns a
  nonnegative number.
\<close>

theorem costs_nonnegative:
  assumes "list_all2 (\<le>) (vmin s) (vmax s)" and "vmin s \<noteq> []"
  shows "(\<forall>c \<in> set (all_costs a s). 0 \<le> c)
       \<and> (\<exists>r. fst (simulate_cost_vectorized a s) = Some r \<and> 0 \<le> r)"
proof -
  have each: "\<forall>c \<in> set (all_costs a s). 0 \<le> c"
    by (simp add: all_costs_nonneg)
  then have "0 \<le> sum_list (all_costs a s)"
    by (simp add: sum_list_nonneg)
  then have "0 \<le> sum_list (all_costs a s) / real (length (all_costs a s))"
    by simp
  moreover have "all_costs a s \<noteq> []"
    using length_all_costs [OF assms(1), of a] assms(2) by auto
  ultimately have "\<exists>r. np_mean (all_costs a s) = Some r \<and> 0 \<le> r"
    by (simp add: np_mean_def)
  with each show ?thesis by (simp add: fst_simulate)
qed

theorem costs_nonnegative_witness:
  "list_all2 (\<le>) [7/10, 0, 1/10] [4/5, 1/10, 4/5 :: real]
   \<and> [7/10, 0, 1/10] \<noteq> ([] :: real list)
   \<and> (289/100) \<in> set (all_costs (1/5) \<lparr>v1 = [4/5, 1/10, 4/5], v2 = [7/10, 0, 1/10],
         vmin = [7/10, 0, 1/10], vmax = [4/5, 1/10, 4/5]\<rparr>)
   \<and> (0::real) \<le> 289/100
   \<and> (\<exists>r. fst (simulate_cost_vectorized (1/5) \<lparr>v1 = [4/5, 1/10, 4/5], v2 = [7/10, 0, 1/10],
         vmin = [7/10, 0, 1/10], vmax = [4/5, 1/10, 4/5]\<rparr>) = Some r \<and> 0 \<le> r)"
proof -
  have h: "list_all2 (\<le>) [7/10, 0, 1/10] [4/5, 1/10, 4/5 :: real]" by simp
  have m: "(289/100) \<in> set (all_costs (1/5) \<lparr>v1 = [4/5, 1/10, 4/5], v2 = [7/10, 0, 1/10],
         vmin = [7/10, 0, 1/10], vmax = [4/5, 1/10, 4/5]\<rparr>)"
    by (simp add: all_costs_def cost1_def cost2_def cost3_def case1_def case2_def case3_def
        np_defs power2_eq_square)
  show ?thesis
    using h m costs_nonnegative [of "\<lparr>v1 = [4/5, 1/10, 4/5], v2 = [7/10, 0, 1/10],
         vmin = [7/10, 0, 1/10], vmax = [4/5, 1/10, 4/5]\<rparr>" "1/5"]
    by simp
qed

section \<open>The sample is only read\<close>

text \<open>
  C7. An evaluation of \<open>simulate_cost_vectorized\<close>, the evaluation at any sequence of
  thresholds, and the evaluations that a run of \<open>optimize\<close> makes, leave the arrays \<open>v1\<close>,
  \<open>v2\<close>, \<open>vmin\<close>, \<open>vmax\<close> as they were; an evaluation at the threshold \<open>a\<close> after such a
  sequence returns what it returns before it.
\<close>

theorem sample_unchanged_by_evaluation:
  "snd (simulate_cost_vectorized a s) = s
   \<and> snd (costs a_values s) = s
   \<and> snd (optimize x s) = s
   \<and> v1 (snd (costs a_values s)) = v1 s \<and> v2 (snd (costs a_values s)) = v2 s
   \<and> vmin (snd (costs a_values s)) = vmin s \<and> vmax (snd (costs a_values s)) = vmax s
   \<and> fst (simulate_cost_vectorized a (snd (simulate_cost_vectorized a s)))
       = fst (simulate_cost_vectorized a s)
   \<and> fst (simulate_cost_vectorized a (snd (costs a_values s)))
       = fst (simulate_cost_vectorized a s)"
  by (simp add: snd_simulate snd_costs optimize_def snd_optimize_loop)

text \<open>
  C8. The argument of \<open>optimize\<close> has no effect: on the same sample, two calls with
  different arguments run the same iterations and leave the same state.
\<close>

theorem optimize_ignores_argument:
  "optimize x s = optimize y s"
  by (simp add: optimize_def)

section \<open>Pairs at the boundary\<close>

text \<open>
  C9. In a sample with \<open>vmin \<le> vmax\<close> in each pair, a pair whose \<open>vmin\<close> or \<open>vmax\<close> equals
  the threshold is selected by the mask \<open>case2\<close> and by neither \<open>case1\<close> nor \<open>case3\<close>; when
  it is the only pair of the sample, the cost computed for it is exactly 0.
\<close>

theorem boundary_pairs_cost_zero:
  assumes "list_all2 (\<le>) (vmin s) (vmax s)" and "i < length (vmin s)"
    and "a = vmin s ! i \<or> a = vmax s ! i"
  shows "case2 a s ! i \<and> \<not> case1 a s ! i \<and> \<not> case3 a s ! i
       \<and> (length (vmin s) = 1 \<longrightarrow>
            all_costs a s = [0] \<and> fst (simulate_cost_vectorized a s) = Some 0)"
proof -
  have len: "length (vmax s) = length (vmin s)"
    using assms(1) by (simp add: list_all2_lengthD)
  have le: "vmin s ! i \<le> vmax s ! i"
    using assms(1,2) by (simp add: list_all2_nthD)
  have masks: "case2 a s ! i \<and> \<not> case1 a s ! i \<and> \<not> case3 a s ! i"
    using assms(2,3) le len by (auto simp: case1_def case2_def case3_def np_and_def)
  have single: "all_costs a s = [0] \<and> fst (simulate_cost_vectorized a s) = Some 0"
    if one: "length (vmin s) = 1"
  proof -
    from one obtain lo where lo: "vmin s = [lo]"
      by (cases "vmin s") auto
    from one len obtain hi where hi: "vmax s = [hi]"
      by (cases "vmax s") auto
    from one assms(2) have "i = 0" by simp
    with le assms(3) lo hi have "lo \<le> a \<and> a \<le> hi" by auto
    then have "all_costs a s = [0]"
      using lo hi
      by (simp add: all_costs_def cost1_def cost2_def cost3_def case1_def case2_def case3_def np_defs)
    then show ?thesis by (simp add: fst_simulate np_mean_def)
  qed
  from masks single show ?thesis by blast
qed

theorem boundary_pairs_cost_zero_witness:
  "list_all2 (\<le>) [1/10] [4/5 :: real] \<and> (0::nat) < length [1/10 :: real]
   \<and> ((1/10 :: real) = [1/10] ! 0 \<or> (1/10 :: real) = [4/5] ! 0)
   \<and> length [1/10 :: real] = 1
   \<and> case2 (1/10) \<lparr>v1 = [4/5], v2 = [1/10], vmin = [1/10], vmax = [4/5]\<rparr> ! 0
   \<and> all_costs (1/10) \<lparr>v1 = [4/5], v2 = [1/10], vmin = [1/10], vmax = [4/5]\<rparr> = [0]
   \<and> fst (simulate_cost_vectorized (1/10)
         \<lparr>v1 = [4/5], v2 = [1/10], vmin = [1/10], vmax = [4/5]\<rparr>) = Some 0"
  using boundary_pairs_cost_zero [of "\<lparr>v1 = [4/5], v2 = [1/10], vmin = [1/10], vmax = [4/5]\<rparr>"
      0 "1/10"]
  by simp

section \<open>The invariant of the search\<close>

text \<open>
  C10. In every run of \<open>optimize\<close> on a drawn sample, the loop starts from \<open>low = 0\<close>,
  \<open>high = 1\<close>, and \<open>0 \<le> low < high \<le> 1\<close> holds before and after each iteration; the two
  thresholds that an iteration passes to \<open>simulate_cost_vectorized\<close>, \<open>mid\<close> and the value of
  \<open>low\<close> at its start, lie in \<open>[0, 1)\<close>.
\<close>

theorem optimize_interval_invariant:
  "let s = draw_sample N u1 u2; tr = fst (optimize a s) in
     tr \<noteq> [] \<and> it_low0 (hd tr) = 0 \<and> it_high0 (hd tr) = 1
     \<and> (\<forall>it \<in> set tr.
           0 \<le> it_low0 it \<and> it_low0 it < it_high0 it \<and> it_high0 it \<le> 1
           \<and> 0 \<le> it_low it \<and> it_low it < it_high it \<and> it_high it \<le> 1
           \<and> it_cost_mid it = fst (simulate_cost_vectorized (it_mid it) s)
           \<and> 0 \<le> it_mid it \<and> it_mid it < 1
           \<and> it_cost_low it = fst (simulate_cost_vectorized (it_low0 it) s)
           \<and> 0 \<le> it_low0 it \<and> it_low0 it < 1)"
proof -
  define s where "s = draw_sample N u1 u2"
  define tr where "tr = fst (optimize_loop s 0 1)"
  have "length tr = 10"
    unfolding tr_def by (rule optimize_loop_length) (simp_all add: epsilon_def)
  then have ne: "tr \<noteq> []" by auto
  have first: "it_low0 (hd tr) = 0 \<and> it_high0 (hd tr) = 1"
    using ne unfolding tr_def by (rule optimize_loop_first)
  have inv: "0 \<le> it_low0 it \<and> it_low0 it < it_high0 it \<and> it_high0 it \<le> 1
           \<and> 0 \<le> it_low it \<and> it_low it < it_high it \<and> it_high it \<le> 1
           \<and> it_cost_mid it = fst (simulate_cost_vectorized (it_mid it) s)
           \<and> 0 \<le> it_mid it \<and> it_mid it < 1
           \<and> it_cost_low it = fst (simulate_cost_vectorized (it_low0 it) s)
           \<and> 0 \<le> it_low0 it \<and> it_low0 it < 1" if mem: "it \<in> set tr" for it
  proof -
    from mem have m: "it \<in> set (fst (optimize_loop s 0 1))" by (simp add: tr_def)
    have i: "0 \<le> it_low0 it \<and> it_low0 it < it_high0 it \<and> it_high0 it \<le> 1
           \<and> 0 \<le> it_low it \<and> it_low it < it_high it \<and> it_high it \<le> 1"
      by (rule optimize_loop_invariant [OF m]) simp_all
    from optimize_loop_iteration [OF m]
    have b: "it_mid it = (it_low0 it + it_high0 it) / 2"
      "it_cost_mid it = fst (simulate_cost_vectorized (it_mid it) s)"
      "it_cost_low it = fst (simulate_cost_vectorized (it_low0 it) s)"
      by simp_all
    from i b(1) have "0 \<le> it_mid it \<and> it_mid it < 1" by simp
    with i b(2,3) show ?thesis by simp
  qed
  from ne first inv show ?thesis
    unfolding Let_def optimize_def s_def [symmetric] tr_def [symmetric] by blast
qed

theorem optimize_interval_invariant_witness:
  "let tr = fst (optimize (1/2) (draw_sample (Suc 0) (\<lambda>i. 4/5) (\<lambda>i. 7/10))) in
     hd tr \<in> set tr
     \<and> hd tr = \<lparr>it_low0 = 0, it_high0 = 1, it_low = 0, it_high = 1/2, it_mid = 1/2,
                it_cost_mid = Some (289/100), it_cost_low = Some (289/100)\<rparr>
     \<and> 0 \<le> it_low (hd tr) \<and> it_low (hd tr) < it_high (hd tr) \<and> it_high (hd tr) \<le> 1
     \<and> 0 \<le> it_mid (hd tr) \<and> it_mid (hd tr) < 1"
proof -
  define tr where "tr = fst (optimize (1/2) (draw_sample (Suc 0) (\<lambda>i. 4/5) (\<lambda>i. 7/10)))"
  note t = optimize_interval_invariant
    [of "Suc 0" "\<lambda>i. 4/5" "\<lambda>i. 7/10" "1/2", unfolded Let_def, folded tr_def]
  have first: "hd tr = \<lparr>it_low0 = 0, it_high0 = 1, it_low = 0, it_high = 1/2, it_mid = 1/2,
                it_cost_mid = Some (289/100), it_cost_low = Some (289/100)\<rparr>"
    unfolding tr_def by (simp add: example_first_iteration)
  have mem: "hd tr \<in> set tr"
    unfolding tr_def by (simp add: example_first_iteration)
  from t mem have "0 \<le> it_low (hd tr) \<and> it_low (hd tr) < it_high (hd tr) \<and> it_high (hd tr) \<le> 1
     \<and> 0 \<le> it_mid (hd tr) \<and> it_mid (hd tr) < 1" by blast
  with first mem show ?thesis
    unfolding Let_def tr_def [symmetric] by blast
qed

end
